theory Spec2Isabelle
  imports Complex_Main "HOL-Library.Product_Lexorder"
begin

section \<open>The sequence matcher behind \<open>calculate_similarity\<close>\<close>

text \<open>
  \<open>calculate_similarity\<close> in \<open>trusted_sources.py\<close> is
  \<^verbatim>\<open>SequenceMatcher(None, text1, text2).ratio()\<close>.
  The definitions of this section transcribe the routines of Python's \<open>difflib\<close> that this
  call runs (\<open>__chain_b\<close>, \<open>find_longest_match\<close>, \<open>get_matching_blocks\<close>, \<open>ratio\<close>,
  \<open>_calculate_ratio\<close>), with \<open>isjunk = None\<close> and \<open>autojunk = True\<close> as the call fixes them.
  Sequences are lists, indices are natural numbers, a block \<open>Match(a, b, size)\<close> is a triple.
\<close>

type_synonym block = "nat \<times> nat \<times> nat"

text \<open>
  \<open>__chain_b\<close>: with \<open>isjunk = None\<close> the set \<open>bjunk\<close> stays empty. With \<open>autojunk\<close> and
  \<open>len(b) >= 200\<close>, every element that occurs more than \<open>len(b) // 100 + 1\<close> times in \<open>b\<close> is
  popular and loses its entry in \<open>b2j\<close>.
\<close>

definition bjunk :: "'a set" where
  "bjunk = {}"

definition bpopular :: "'a list \<Rightarrow> 'a set" where
  "bpopular b =
     (if 200 \<le> length b
      then {elt \<in> set b. length b div 100 + 1 < count_list b elt}
      else {})"

text \<open>\<open>b2j.get(elt, nothing)\<close>: the indices of \<open>elt\<close> in \<open>b\<close>, ascending; none for a popular one.\<close>

definition b2j_get :: "'a list \<Rightarrow> 'a \<Rightarrow> nat list" where
  "b2j_get b elt =
     (if elt \<in> bpopular b then [] else filter (\<lambda>j. b ! j = elt) [0..<length b])"

text \<open>
  The inner loop of \<open>find_longest_match\<close> over the indices \<open>j\<close> of \<open>a[i]\<close> in \<open>b\<close>.
  \<open>j2len\<close> and \<open>newj2len\<close> are dictionaries keyed by integers (the key \<open>j - 1\<close> is \<open>-1\<close> for
  \<open>j = 0\<close> and is then absent). \<open>continue\<close> skips an index below \<open>blo\<close>, \<open>break\<close> leaves the
  loop at the first index from \<open>bhi\<close> on. In \<open>i - k + 1\<close> the length \<open>k\<close> never exceeds
  \<open>i + 1\<close>, so the natural-number difference \<open>i + 1 - k\<close> is the same value.
\<close>

fun scan_row ::
  "nat \<Rightarrow> nat \<Rightarrow> (int \<rightharpoonup> nat) \<Rightarrow> nat \<Rightarrow> nat list \<Rightarrow> (int \<rightharpoonup> nat) \<times> block \<Rightarrow> (int \<rightharpoonup> nat) \<times> block"
where
  "scan_row blo bhi j2len i [] st = st"
| "scan_row blo bhi j2len i (j # js) (newj2len, (besti, bestj, bestsize)) =
     (if j < blo then scan_row blo bhi j2len i js (newj2len, (besti, bestj, bestsize))
      else if bhi \<le> j then (newj2len, (besti, bestj, bestsize))
      else
        let k = (case j2len (int j - 1) of None \<Rightarrow> 0 | Some v \<Rightarrow> v) + 1 in
        if bestsize < k
        then scan_row blo bhi j2len i js (newj2len(int j \<mapsto> k), (i + 1 - k, j + 1 - k, k))
        else scan_row blo bhi j2len i js (newj2len(int j \<mapsto> k), (besti, bestj, bestsize)))"

text \<open>The outer loop \<open>for i in range(alo, ahi)\<close>: each row starts from an empty \<open>newj2len\<close>.\<close>

fun scan_rows ::
  "'a list \<Rightarrow> 'a list \<Rightarrow> nat \<Rightarrow> nat \<Rightarrow> nat list \<Rightarrow> (int \<rightharpoonup> nat) \<times> block \<Rightarrow> (int \<rightharpoonup> nat) \<times> block"
where
  "scan_rows a b blo bhi [] st = st"
| "scan_rows a b blo bhi (i # is) (j2len, best) =
     scan_rows a b blo bhi is (scan_row blo bhi j2len i (b2j_get b (a ! i)) (Map.empty, best))"

text \<open>
  The four \<open>while\<close> loops that extend the best block to the left and to the right. \<open>ok\<close> is
  the test on the element of \<open>b\<close>: \<open>not isbjunk(...)\<close> in the first pair of loops,
  \<open>isbjunk(...)\<close> in the second pair.
\<close>

function extend_left ::
  "'a list \<Rightarrow> 'a list \<Rightarrow> ('a \<Rightarrow> bool) \<Rightarrow> nat \<Rightarrow> nat \<Rightarrow> block \<Rightarrow> block"
where
  "extend_left a b ok alo blo (besti, bestj, bestsize) =
     (if alo < besti \<and> blo < bestj \<and> ok (b ! (bestj - 1)) \<and> a ! (besti - 1) = b ! (bestj - 1)
      then extend_left a b ok alo blo (besti - 1, bestj - 1, bestsize + 1)
      else (besti, bestj, bestsize))"
  by pat_completeness auto
termination
  by (relation "measure (\<lambda>(a, b, ok, alo, blo, (besti, bestj, bestsize)). besti)") auto

function extend_right ::
  "'a list \<Rightarrow> 'a list \<Rightarrow> ('a \<Rightarrow> bool) \<Rightarrow> nat \<Rightarrow> nat \<Rightarrow> block \<Rightarrow> block"
where
  "extend_right a b ok ahi bhi (besti, bestj, bestsize) =
     (if besti + bestsize < ahi \<and> bestj + bestsize < bhi \<and> ok (b ! (bestj + bestsize))
         \<and> a ! (besti + bestsize) = b ! (bestj + bestsize)
      then extend_right a b ok ahi bhi (besti, bestj, bestsize + 1)
      else (besti, bestj, bestsize))"
  by pat_completeness auto
termination
  by (relation "measure (\<lambda>(a, b, ok, ahi, bhi, (besti, bestj, bestsize)). ahi - (besti + bestsize))")
     auto

definition find_longest_match :: "'a list \<Rightarrow> 'a list \<Rightarrow> nat \<Rightarrow> nat \<Rightarrow> nat \<Rightarrow> nat \<Rightarrow> block" where
  "find_longest_match a b alo ahi blo bhi =
     (let best = snd (scan_rows a b blo bhi [alo..<ahi] (Map.empty, (alo, blo, 0)));
          best = extend_left a b (\<lambda>x. x \<notin> bjunk) alo blo best;
          best = extend_right a b (\<lambda>x. x \<notin> bjunk) ahi bhi best;
          best = extend_left a b (\<lambda>x. x \<in> bjunk) alo blo best;
          best = extend_right a b (\<lambda>x. x \<in> bjunk) ahi bhi best
      in best)"

declare extend_left.simps [simp del] extend_right.simps [simp del]


text \<open>
  Helper facts: the block that \<open>find_longest_match\<close> returns lies inside the region it was
  asked to search. \<open>in_region\<close> states it; \<open>row_ok\<close> is the invariant of the dictionary
  \<open>j2len\<close> that carries it through the rows.
\<close>

definition in_region :: "nat \<Rightarrow> nat \<Rightarrow> nat \<Rightarrow> nat \<Rightarrow> block \<Rightarrow> bool" where
  "in_region alo ahi blo bhi m =
     (case m of (i, j, k) \<Rightarrow>
        alo \<le> i \<and> blo \<le> j \<and> i + k \<le> max alo ahi \<and> j + k \<le> max blo bhi)"

definition row_ok :: "nat \<Rightarrow> nat \<Rightarrow> nat \<Rightarrow> (int \<rightharpoonup> nat) \<Rightarrow> bool" where
  "row_ok alo blo n j2len = (\<forall>j v. j2len j = Some v \<longrightarrow> v \<le> n - alo \<and> int v \<le> j - int blo + 1)"

lemma scan_row_in_region:
  assumes "row_ok alo blo i j2len" "alo \<le> i" "i < ahi"
    and "row_ok alo blo (Suc i) new" "in_region alo ahi blo bhi best"
  shows "row_ok alo blo (Suc i) (fst (scan_row blo bhi j2len i js (new, best)))
         \<and> in_region alo ahi blo bhi (snd (scan_row blo bhi j2len i js (new, best)))"
  using assms(4,5)
proof (induction js arbitrary: new best)
  case Nil
  then show ?case by simp
next
  case (Cons j js)
  obtain bi bj bs where best: "best = (bi, bj, bs)" by (cases best)
  show ?case
  proof (cases "j < blo \<or> bhi \<le> j")
    case True
    then show ?thesis using Cons best by auto
  next
    case False
    define k where "k = (case j2len (int j - 1) of None \<Rightarrow> 0 | Some v \<Rightarrow> v) + 1"
    have k1: "k \<le> Suc i - alo" and k2: "int k \<le> int j - int blo + 1"
      using assms(1,2) False unfolding k_def row_ok_def
      by (auto split: option.splits dest!: spec[of _ "int j - 1"])
    have new': "row_ok alo blo (Suc i) (new(int j \<mapsto> k))"
      using Cons.prems(1) k1 k2 unfolding row_ok_def by auto
    have w': "in_region alo ahi blo bhi (i + 1 - k, j + 1 - k, k)"
      using k1 k2 assms(2,3) False unfolding in_region_def by auto
    have eq: "scan_row blo bhi j2len i (j # js) (new, best) =
        (if bs < k then scan_row blo bhi j2len i js (new(int j \<mapsto> k), (i + 1 - k, j + 1 - k, k))
         else scan_row blo bhi j2len i js (new(int j \<mapsto> k), best))"
      using False by (simp add: best k_def Let_def)
    show ?thesis
    proof (cases "bs < k")
      case True
      then show ?thesis using Cons.IH[OF new' w'] by (simp only: eq if_True)
    next
      case False
      then show ?thesis using Cons.IH[OF new' Cons.prems(2)] by (simp only: eq if_False)
    qed
  qed
qed

lemma row_ok_empty: "row_ok alo blo n Map.empty"
  by (simp add: row_ok_def)

lemma scan_rows_in_region:
  assumes "alo \<le> m" "row_ok alo blo m (fst st)" "in_region alo ahi blo bhi (snd st)"
  shows "in_region alo ahi blo bhi (snd (scan_rows a b blo bhi [m..<ahi] st))"
  using assms
proof (induction "ahi - m" arbitrary: m st)
  case 0
  then show ?case by simp
next
  case (Suc d)
  obtain j2len best where st: "st = (j2len, best)" by (cases st)
  have m: "m < ahi" using Suc.hyps(2) by simp
  let ?st' = "scan_row blo bhi j2len m (b2j_get b (a ! m)) (Map.empty, best)"
  have step: "row_ok alo blo (Suc m) (fst ?st') \<and> in_region alo ahi blo bhi (snd ?st')"
    using scan_row_in_region[of alo blo m j2len ahi Map.empty bhi best] Suc.prems m st
    by (simp add: row_ok_empty)
  have "in_region alo ahi blo bhi (snd (scan_rows a b blo bhi [Suc m..<ahi] ?st'))"
    using Suc.hyps(1)[of "Suc m" ?st'] Suc.hyps(2) Suc.prems(1) step by simp
  then show ?case using m st by (simp add: upt_conv_Cons)
qed

lemma extend_left_in_region:
  "in_region alo ahi blo bhi m \<Longrightarrow> in_region alo ahi blo bhi (extend_left a b ok alo blo m)"
proof (induction a b ok alo blo m rule: extend_left.induct)
  case (1 a b ok alo blo besti bestj bestsize)
  show ?case
  proof (cases "alo < besti \<and> blo < bestj \<and> ok (b ! (bestj - 1)) \<and> a ! (besti - 1) = b ! (bestj - 1)")
    case True
    have "in_region alo ahi blo bhi (besti - 1, bestj - 1, bestsize + 1)"
      using "1.prems" True by (auto simp: in_region_def)
    then have "in_region alo ahi blo bhi (extend_left a b ok alo blo (besti - 1, bestj - 1, bestsize + 1))"
      using "1.IH" True by blast
    then show ?thesis using True by (subst extend_left.simps) simp
  next
    case False
    then show ?thesis using "1.prems" by (subst extend_left.simps) auto
  qed
qed

lemma extend_right_in_region:
  "in_region alo ahi blo bhi m \<Longrightarrow> in_region alo ahi blo bhi (extend_right a b ok ahi bhi m)"
proof (induction a b ok ahi bhi m rule: extend_right.induct)
  case (1 a b ok ahi bhi besti bestj bestsize)
  show ?case
  proof (cases "besti + bestsize < ahi \<and> bestj + bestsize < bhi \<and> ok (b ! (bestj + bestsize))
         \<and> a ! (besti + bestsize) = b ! (bestj + bestsize)")
    case True
    have "in_region alo ahi blo bhi (besti, bestj, bestsize + 1)"
      using "1.prems" True by (auto simp: in_region_def)
    then have "in_region alo ahi blo bhi (extend_right a b ok ahi bhi (besti, bestj, bestsize + 1))"
      using "1.IH" True by blast
    then show ?thesis using True by (subst extend_right.simps) simp
  next
    case False
    then show ?thesis using "1.prems" by (subst extend_right.simps) auto
  qed
qed

lemma find_longest_match_in_region:
  "in_region alo ahi blo bhi (find_longest_match a b alo ahi blo bhi)"
proof -
  have "in_region alo ahi blo bhi (snd (scan_rows a b blo bhi [alo..<ahi] (Map.empty, (alo, blo, 0))))"
    by (rule scan_rows_in_region) (simp_all add: row_ok_empty in_region_def)
  then show ?thesis
    unfolding find_longest_match_def Let_def
    by (intro extend_left_in_region extend_right_in_region)
qed


lemma find_longest_match_bounds:
  assumes "find_longest_match a b alo ahi blo bhi = (i, j, k)" "k \<noteq> 0"
  shows "alo \<le> i \<and> i + k \<le> ahi \<and> blo \<le> j \<and> j + k \<le> bhi"
  using find_longest_match_in_region[of alo ahi blo bhi a b] assms
  by (auto simp: in_region_def max_def split: if_splits)

text \<open>
  \<open>get_matching_blocks\<close>: the work list \<open>queue\<close> is a Python list used as a stack
  (\<open>append\<close> and \<open>pop()\<close> at its end); here the head of the list is that end. The loop
  ends because every region pushed is strictly shorter than the one popped.
\<close>

function matching_loop ::
  "'a list \<Rightarrow> 'a list \<Rightarrow> (nat \<times> nat \<times> nat \<times> nat) list \<Rightarrow> block list \<Rightarrow> block list"
where
  "matching_loop a b [] matching_blocks = matching_blocks"
| "matching_loop a b ((alo, ahi, blo, bhi) # queue) matching_blocks =
     (case find_longest_match a b alo ahi blo bhi of (i, j, k) \<Rightarrow>
        if k \<noteq> 0
        then matching_loop a b
               ((if i + k < ahi \<and> j + k < bhi then [(i + k, ahi, j + k, bhi)] else []) @
                (if alo < i \<and> blo < j then [(alo, i, blo, j)] else []) @ queue)
               (matching_blocks @ [(i, j, k)])
        else matching_loop a b queue matching_blocks)"
  by pat_completeness auto
termination
  by (relation "measure (\<lambda>(a, b, queue, matching_blocks).
          sum_list (map (\<lambda>(alo, ahi, blo, bhi). 2 * (ahi - alo) + 1) queue))")
     (auto dest!: find_longest_match_bounds find_longest_match_bounds[OF sym])

text \<open>
  The second loop of \<open>get_matching_blocks\<close> merges adjacent blocks; its state is the pending
  block \<open>(i1, j1, k1)\<close> and the list \<open>non_adjacent\<close>.
\<close>

fun collapse :: "block list \<Rightarrow> block \<Rightarrow> block list \<Rightarrow> block \<times> block list" where
  "collapse [] pending non_adjacent = (pending, non_adjacent)"
| "collapse ((i2, j2, k2) # rest) (i1, j1, k1) non_adjacent =
     (if i1 + k1 = i2 \<and> j1 + k1 = j2
      then collapse rest (i1, j1, k1 + k2) non_adjacent
      else collapse rest (i2, j2, k2)
             (if k1 \<noteq> 0 then non_adjacent @ [(i1, j1, k1)] else non_adjacent))"

definition get_matching_blocks :: "'a list \<Rightarrow> 'a list \<Rightarrow> block list" where
  "get_matching_blocks a b =
     (let la = length a; lb = length b;
          matching_blocks = sort (matching_loop a b [(0, la, 0, lb)] [])
      in case collapse matching_blocks (0, 0, 0) [] of
           ((i1, j1, k1), non_adjacent) \<Rightarrow>
             (if k1 \<noteq> 0 then non_adjacent @ [(i1, j1, k1)] else non_adjacent) @ [(la, lb, 0)])"

text \<open>\<open>_calculate_ratio\<close> and \<open>ratio\<close>. Python's floats are modelled by the real numbers.\<close>

definition calculate_ratio :: "nat \<Rightarrow> nat \<Rightarrow> real" where
  "calculate_ratio matches len = (if len \<noteq> 0 then 2 * real matches / real len else 1)"

definition ratio :: "'a list \<Rightarrow> 'a list \<Rightarrow> real" where
  "ratio a b =
     calculate_ratio (sum_list (map (\<lambda>(i, j, k). k) (get_matching_blocks a b)))
       (length a + length b)"

definition calculate_similarity :: "string \<Rightarrow> string \<Rightarrow> real" where
  "calculate_similarity text1 text2 = ratio text1 text2"

declare matching_loop.simps(2) [simp del]

text \<open>
  Helper facts: the matched characters never exceed the shorter text, so the ratio lies
  between 0 and 1. \<open>matched\<close> is the sum that \<open>ratio\<close> takes over the blocks; \<open>room\<close>
  bounds what the regions still on the work list can contribute.
\<close>

definition matched :: "block list \<Rightarrow> nat" where
  "matched bs = sum_list (map (\<lambda>(i, j, k). k) bs)"

definition room :: "(nat \<times> nat \<times> nat \<times> nat) list \<Rightarrow> nat" where
  "room queue = sum_list (map (\<lambda>(alo, ahi, blo, bhi). min (ahi - alo) (bhi - blo)) queue)"

lemma matched_simps [simp]:
  "matched [] = 0" "matched ((i, j, k) # bs) = k + matched bs" "matched (xs @ ys) = matched xs + matched ys"
  by (simp_all add: matched_def)

lemma room_simps [simp]:
  "room [] = 0" "room ((alo, ahi, blo, bhi) # q) = min (ahi - alo) (bhi - blo) + room q"
  "room (xs @ ys) = room xs + room ys"
  by (simp_all add: room_def)

lemma matching_loop_matched:
  "matched (matching_loop a b queue mbs) \<le> matched mbs + room queue"
proof (induction a b queue mbs rule: matching_loop.induct)
  case (1 a b mbs)
  then show ?case by simp
next
  case (2 a b alo ahi blo bhi queue mbs)
  obtain i j k where flm: "find_longest_match a b alo ahi blo bhi = (i, j, k)"
    by (cases "find_longest_match a b alo ahi blo bhi")
  show ?case
  proof (cases "k = 0")
    case True
    have eq: "matching_loop a b ((alo, ahi, blo, bhi) # queue) mbs = matching_loop a b queue mbs"
      by (subst matching_loop.simps(2)) (simp add: flm True)
    show ?thesis using "2.IH"(2)[OF flm[symmetric] refl] True
      unfolding eq by simp
  next
    case False
    note bnd = find_longest_match_bounds[OF flm False]
    let ?q = "(if i + k < ahi \<and> j + k < bhi then [(i + k, ahi, j + k, bhi)] else []) @
                (if alo < i \<and> blo < j then [(alo, i, blo, j)] else []) @ queue"
    have eq: "matching_loop a b ((alo, ahi, blo, bhi) # queue) mbs =
              matching_loop a b ?q (mbs @ [(i, j, k)])"
      by (subst matching_loop.simps(2)) (simp add: flm False)
    have r: "room ?q + k \<le> min (ahi - alo) (bhi - blo) + room queue"
      using bnd by auto
    have "matched (matching_loop a b ?q (mbs @ [(i, j, k)])) \<le> matched (mbs @ [(i, j, k)]) + room ?q"
      using "2.IH"(1)[OF flm[symmetric] refl] False by simp
    also have "\<dots> = matched mbs + (room ?q + k)" by simp
    also have "\<dots> \<le> matched mbs + (min (ahi - alo) (bhi - blo) + room queue)"
      using r by linarith
    finally show ?thesis unfolding eq by simp
  qed
qed

lemma matched_insort: "matched (insort x xs) = matched (x # xs)"
  by (induction xs) (auto simp: matched_def)

lemma matched_sort: "matched (sort bs) = matched bs"
proof (induction bs)
  case Nil
  then show ?case by simp
next
  case (Cons x bs)
  have "matched (sort (x # bs)) = matched (x # sort bs)"
    by (simp add: matched_insort)
  then show ?case using Cons by (simp add: matched_def)
qed

lemma collapse_matched:
  "collapse rest pending na = (pending', na') \<Longrightarrow>
   matched na' + snd (snd pending') = matched na + snd (snd pending) + matched rest"
proof (induction rest pending na rule: collapse.induct)
  case (1 pending na)
  then show ?case by simp
next
  case (2 i2 j2 k2 rest i1 j1 k1 na)
  then show ?case by (auto split: if_splits)
qed

lemma get_matching_blocks_matched:
  "matched (get_matching_blocks a b) = matched (matching_loop a b [(0, length a, 0, length b)] [])"
proof -
  obtain i1 j1 k1 na where c: "collapse (sort (matching_loop a b [(0, length a, 0, length b)] [])) (0, 0, 0) [] = ((i1, j1, k1), na)"
    by (metis prod_cases3 surj_pair)
  from collapse_matched[OF c] show ?thesis
    by (simp add: get_matching_blocks_def Let_def c matched_sort)
qed

lemma matched_le: "matched (get_matching_blocks a b) \<le> min (length a) (length b)"
  using matching_loop_matched[of a b "[(0, length a, 0, length b)]" "[]"]
  by (simp add: get_matching_blocks_matched)

lemma ratio_bounds: "0 \<le> ratio a b \<and> ratio a b \<le> 1"
proof -
  have "2 * matched (get_matching_blocks a b) \<le> length a + length b"
    using matched_le[of a b] by simp
  then have "2 * real (matched (get_matching_blocks a b)) \<le> real (length a + length b)"
    by (metis of_nat_le_iff of_nat_mult of_nat_numeral)
  then show ?thesis
    unfolding ratio_def calculate_ratio_def matched_def[symmetric]
    by (auto simp: divide_le_eq)
qed

text \<open>
  Helper facts: a text matched against itself. \<open>prev_len\<close> is the read
  \<open>j2lenget(j-1, 0)\<close>; \<open>drun s i\<close> is the length of the run of non-popular elements of
  \<open>s\<close> that ends at index \<open>i\<close>. Along the rows the best block stays on the diagonal
  (\<open>diag_best\<close>), and the extension loops then stretch it over the whole text.
\<close>

definition prev_len :: "(int \<rightharpoonup> nat) \<Rightarrow> nat \<Rightarrow> nat" where
  "prev_len j2len j = (case j2len (int j - 1) of None \<Rightarrow> 0 | Some v \<Rightarrow> v)"

lemma scan_row_step:
  assumes "blo \<le> j" "j < bhi"
  shows "scan_row blo bhi j2len i (j # js) (new, (bi, bj, bs)) =
         scan_row blo bhi j2len i js
           (new(int j \<mapsto> prev_len j2len j + 1),
            if bs < prev_len j2len j + 1
            then (i + 1 - (prev_len j2len j + 1), j + 1 - (prev_len j2len j + 1), prev_len j2len j + 1)
            else (bi, bj, bs))"
  using assms by (simp add: prev_len_def Let_def)

lemma scan_row_append:
  assumes "\<forall>j\<in>set xs. blo \<le> j \<and> j < bhi"
  shows "scan_row blo bhi j2len i (xs @ ys) st = scan_row blo bhi j2len i ys (scan_row blo bhi j2len i xs st)"
  using assms
proof (induction xs arbitrary: st)
  case Nil
  then show ?case by simp
next
  case (Cons j xs)
  obtain new bi bj bs where st: "st = (new, (bi, bj, bs))" by (metis prod_cases3 surj_pair)
  have j: "blo \<le> j" "j < bhi" using Cons.prems by auto
  show ?case
    unfolding st append_Cons scan_row_step[OF j]
    using Cons.IH Cons.prems by simp
qed

lemma scan_row_keeps_best:
  assumes "\<forall>j\<in>set js. blo \<le> j \<and> j < bhi \<and> prev_len j2len j + 1 \<le> bs"
  shows "snd (scan_row blo bhi j2len i js (new, (bi, bj, bs))) = (bi, bj, bs)"
  using assms
proof (induction js arbitrary: new)
  case Nil
  then show ?case by simp
next
  case (Cons j js)
  have j: "blo \<le> j" "j < bhi" and le: "\<not> bs < prev_len j2len j + 1" using Cons.prems by auto
  show ?case
    unfolding scan_row_step[OF j] using le Cons.IH Cons.prems by simp
qed

lemma scan_row_fst:
  assumes "\<forall>j\<in>set js. blo \<le> j \<and> j < bhi"
  shows "fst (scan_row blo bhi j2len i js (new, best)) key =
         (if key \<in> int ` set js then Some (prev_len j2len (nat key) + 1) else new key)"
  using assms
proof (induction js arbitrary: new best)
  case Nil
  then show ?case by simp
next
  case (Cons j js)
  obtain bi bj bs where best: "best = (bi, bj, bs)" by (metis prod_cases3)
  have j: "blo \<le> j" "j < bhi" using Cons.prems by auto
  show ?case
    unfolding best scan_row_step[OF j] using Cons.IH Cons.prems by auto
qed

fun drun :: "'a list \<Rightarrow> nat \<Rightarrow> nat" where
  "drun s 0 = (if s ! 0 \<notin> bpopular s then 1 else 0)"
| "drun s (Suc i) = (if s ! Suc i \<notin> bpopular s then drun s i + 1 else 0)"

definition pr :: "'a list \<Rightarrow> nat \<Rightarrow> nat" where
  "pr s i = (case i of 0 \<Rightarrow> 0 | Suc i' \<Rightarrow> drun s i')"

lemma drun_le: "drun s i \<le> Suc i"
  by (induction i) auto

lemma drun_pr: "drun s i = (if s ! i \<notin> bpopular s then pr s i + 1 else 0)"
  by (cases i) (auto simp: pr_def)

lemma pr_Suc: "pr s (Suc i) = drun s i"
  by (simp add: pr_def)

definition diag_row :: "'a list \<Rightarrow> nat \<Rightarrow> (int \<rightharpoonup> nat) \<Rightarrow> bool" where
  "diag_row s i j2len =
     ((\<forall>j. prev_len j2len j \<le> pr s j \<and> prev_len j2len j \<le> pr s i) \<and> prev_len j2len i = pr s i)"

definition diag_best :: "'a list \<Rightarrow> nat \<Rightarrow> block \<Rightarrow> bool" where
  "diag_best s m best =
     (\<exists>bi bs. best = (bi, bi, bs) \<and> bi + bs \<le> m \<and> (\<forall>i'<m. drun s i' \<le> bs))"

lemma filter_upt_split:
  assumes "i < n" "Q i"
  shows "filter Q [0..<n] = filter Q [0..<i] @ [i] @ filter Q [Suc i..<n]"
proof -
  have "[0..<n] = [0..<i] @ i # [Suc i..<n]"
  proof -
    have "[0..<i + (n - i)] = [0..<i] @ [i..<i + (n - i)]"
      by (rule upt_add_eq_append) simp
    moreover have "i + (n - i) = n" using assms(1) by simp
    moreover have "[i..<n] = i # [Suc i..<n]" using assms(1) by (simp add: upt_conv_Cons)
    ultimately show ?thesis by simp
  qed
  then show ?thesis using assms(2) by simp
qed

lemma scan_row_diag:
  assumes i: "i < length s" and row: "diag_row s i j2len" and best: "diag_best s i best"
  defines "R \<equiv> scan_row 0 (length s) j2len i (b2j_get s (s ! i)) (Map.empty, best)"
  shows "diag_row s (Suc i) (fst R) \<and> diag_best s (Suc i) (snd R)"
proof (cases "s ! i \<in> bpopular s")
  case True
  then have R: "R = (Map.empty, best)" by (simp add: R_def b2j_get_def)
  have d0: "drun s i = 0" using True by (simp add: drun_pr)
  have "diag_row s (Suc i) Map.empty"
    by (simp add: diag_row_def prev_len_def pr_Suc d0)
  moreover have "diag_best s (Suc i) best"
    using best d0 unfolding diag_best_def by (auto simp: less_Suc_eq)
  ultimately show ?thesis by (simp add: R)
next
  case False
  let ?Q = "\<lambda>j. s ! j = s ! i"
  let ?L = "filter ?Q [0..<length s]"
  let ?L1 = "filter ?Q [0..<i]" and ?L2 = "filter ?Q [Suc i..<length s]"
  let ?n = "length s"
  have L: "b2j_get s (s ! i) = ?L" using False by (simp add: b2j_get_def)
  have Ls: "?L = ?L1 @ [i] @ ?L2" using filter_upt_split[OF i, of ?Q] by simp
  have inL: "\<forall>j\<in>set ?L. 0 \<le> j \<and> j < ?n" by auto
  have di: "drun s i = pr s i + 1" using False by (simp add: drun_pr)
  have dj: "drun s j = pr s j + 1" if "j \<in> set ?L" for j
    using that False by (simp add: drun_pr)
  have g: "prev_len j2len j \<le> pr s j" "prev_len j2len j \<le> pr s i" for j
    using row unfolding diag_row_def by auto
  have gi: "prev_len j2len i = pr s i" using row unfolding diag_row_def by auto
  \<comment> \<open>the dictionary\<close>
  have fstR: "fst R key = (if key \<in> int ` set ?L then Some (prev_len j2len (nat key) + 1) else None)" for key
    unfolding R_def L using scan_row_fst[OF inL, of j2len i Map.empty best key] by simp
  have pl0: "prev_len (fst R) 0 = 0"
    unfolding prev_len_def fstR by auto
  have plS: "prev_len (fst R) (Suc j) = (if j \<in> set ?L then prev_len j2len j + 1 else 0)" for j
  proof -
    have "int (Suc j) - 1 = int j" by simp
    moreover have "(int j \<in> int ` set ?L) = (j \<in> set ?L)" by (simp add: image_iff)
    ultimately show ?thesis unfolding prev_len_def fstR by simp
  qed
  have row': "diag_row s (Suc i) (fst R)"
    unfolding diag_row_def
  proof (intro conjI allI)
    fix j show "prev_len (fst R) j \<le> pr s j"
    proof (cases j)
      case 0 then show ?thesis by (simp add: pl0)
    next
      case (Suc j')
      show ?thesis unfolding Suc plS pr_Suc using dj[of j'] g(1)[of j'] by simp
    qed
    show "prev_len (fst R) j \<le> pr s (Suc i)"
    proof (cases j)
      case 0 then show ?thesis by (simp add: pl0)
    next
      case (Suc j')
      show ?thesis unfolding Suc plS pr_Suc using di g(2)[of j'] by simp
    qed
  next
    have "i \<in> set ?L" using i by simp
    then show "prev_len (fst R) (Suc i) = pr s (Suc i)"
      unfolding plS pr_Suc using di gi by simp
  qed
  \<comment> \<open>the best block\<close>
  obtain bi bs where b: "best = (bi, bi, bs)" "bi + bs \<le> i" "\<forall>i'<i. drun s i' \<le> bs"
    using best unfolding diag_best_def by auto
  define k where "k = prev_len j2len i + 1"
  have kd: "k = drun s i" using di gi by (simp add: k_def)
  define best1 where "best1 = (if bs < k then (i + 1 - k, i + 1 - k, k) else (bi, bi, bs))"
  have in1: "\<forall>j\<in>set ?L1. 0 \<le> j \<and> j < ?n" using i by auto
  have in1': "\<forall>j\<in>set ?L1. 0 \<le> j \<and> j < ?n \<and> prev_len j2len j + 1 \<le> bs"
  proof
    fix j assume j: "j \<in> set ?L1"
    then have "j < i" "j \<in> set ?L" using i by auto
    then have "prev_len j2len j + 1 \<le> drun s j" "drun s j \<le> bs"
      using dj[of j] g(1)[of j] b(3) by auto
    then show "0 \<le> j \<and> j < ?n \<and> prev_len j2len j + 1 \<le> bs" using \<open>j < i\<close> i by simp
  qed
  obtain new1 where s1: "scan_row 0 ?n j2len i ?L1 (Map.empty, best) = (new1, best)"
    using scan_row_keeps_best[OF in1', of i Map.empty bi bi] b(1)
    by (metis prod.collapse)
  have s2: "scan_row 0 ?n j2len i [i] (new1, best) = (new1(int i \<mapsto> k), best1)"
    unfolding b(1) using scan_row_step[of 0 i ?n j2len i "[]" new1 bi bi bs] i
    by (simp add: k_def best1_def)
  obtain b1i b1s where b1: "best1 = (b1i, b1i, b1s)" "b1i + b1s \<le> Suc i" "k \<le> b1s" "bs \<le> b1s"
    using b(2) drun_le[of s i] kd unfolding best1_def by (cases "bs < k") auto
  have in2': "\<forall>j\<in>set ?L2. 0 \<le> j \<and> j < ?n \<and> prev_len j2len j + 1 \<le> b1s"
  proof
    fix j assume j: "j \<in> set ?L2"
    have "prev_len j2len j + 1 \<le> k" using g(2)[of j] gi by (simp add: k_def)
    then show "0 \<le> j \<and> j < ?n \<and> prev_len j2len j + 1 \<le> b1s" using j b1(3) by auto
  qed
  have s3: "snd (scan_row 0 ?n j2len i ?L2 (new1(int i \<mapsto> k), best1)) = best1"
    unfolding b1(1) by (rule scan_row_keeps_best[OF in2'])
  have "R = scan_row 0 ?n j2len i ([i] @ ?L2) (scan_row 0 ?n j2len i ?L1 (Map.empty, best))"
    unfolding R_def L using Ls scan_row_append[OF in1, of j2len i "[i] @ ?L2" "(Map.empty, best)"] by simp
  also have "\<dots> = scan_row 0 ?n j2len i ?L2 (scan_row 0 ?n j2len i [i] (new1, best))"
    unfolding s1 using scan_row_append[of "[i]" 0 ?n j2len i ?L2 "(new1, best)"] i by simp
  finally have "snd R = best1" using s2 s3 by simp
  moreover have "diag_best s (Suc i) best1"
    unfolding diag_best_def using b1 b(3) kd by (auto simp: less_Suc_eq intro: order_trans)
  ultimately show ?thesis using row' by simp
qed


lemma scan_rows_diag:
  assumes "m \<le> length s" "diag_row s m (fst st)" "diag_best s m (snd st)"
  shows "diag_best s (length s) (snd (scan_rows s s 0 (length s) [m..<length s] st))"
  using assms
proof (induction "length s - m" arbitrary: m st)
  case 0
  then show ?case by simp
next
  case (Suc d)
  obtain j2len best where st: "st = (j2len, best)" by (cases st)
  have m: "m < length s" using Suc.hyps(2) by simp
  let ?st' = "scan_row 0 (length s) j2len m (b2j_get s (s ! m)) (Map.empty, best)"
  have step: "diag_row s (Suc m) (fst ?st') \<and> diag_best s (Suc m) (snd ?st')"
    using scan_row_diag[OF m, of j2len best] Suc.prems st by simp
  have "diag_best s (length s) (snd (scan_rows s s 0 (length s) [Suc m..<length s] ?st'))"
    using Suc.hyps(1)[of "Suc m" ?st'] Suc.hyps(2) m step by simp
  then show ?case using m st by (simp add: upt_conv_Cons)
qed

lemma extend_left_same:
  "bi \<le> length s \<Longrightarrow> extend_left s s (\<lambda>x. True) 0 0 (bi, bi, bs) = (0, 0, bs + bi)"
proof (induction bi arbitrary: bs)
  case 0
  then show ?case by (subst extend_left.simps) simp
next
  case (Suc bi)
  have "extend_left s s (\<lambda>x. True) 0 0 (Suc bi, Suc bi, bs) =
        extend_left s s (\<lambda>x. True) 0 0 (bi, bi, bs + 1)"
    by (subst extend_left.simps) simp
  then show ?case using Suc.IH[of "bs + 1"] Suc.prems by simp
qed

lemma extend_right_same:
  "k \<le> n \<Longrightarrow> extend_right s s (\<lambda>x. True) n n (0, 0, k) = (0, 0, n)"
proof (induction "n - k" arbitrary: k)
  case 0
  then show ?case by (subst extend_right.simps) simp
next
  case (Suc d)
  have "extend_right s s (\<lambda>x. True) n n (0, 0, k) = extend_right s s (\<lambda>x. True) n n (0, 0, k + 1)"
  proof -
    have "k < n" using Suc.hyps(2) by simp
    then show ?thesis by (subst extend_right.simps) simp
  qed
  then show ?case using Suc.hyps(1)[of "k + 1"] Suc.hyps(2) by simp
qed

lemma extend_left_never: "extend_left a b (\<lambda>x. False) alo blo m = m"
  by (cases m) (simp add: extend_left.simps)

lemma extend_right_never: "extend_right a b (\<lambda>x. False) ahi bhi m = m"
  by (cases m) (simp add: extend_right.simps)

lemma find_longest_match_same:
  "find_longest_match s s 0 (length s) 0 (length s) = (0, 0, length s)"
proof -
  have "diag_row s 0 Map.empty"
    by (simp add: diag_row_def prev_len_def pr_def)
  moreover have "diag_best s 0 (0, 0, 0)"
    by (simp add: diag_best_def)
  ultimately have "diag_best s (length s)
      (snd (scan_rows s s 0 (length s) [0..<length s] (Map.empty, (0, 0, 0))))"
    using scan_rows_diag[of 0 s "(Map.empty, (0, 0, 0))"] by simp
  then obtain bi bs where
    b: "snd (scan_rows s s 0 (length s) [0..<length s] (Map.empty, (0, 0, 0))) = (bi, bi, bs)"
       "bi + bs \<le> length s"
    unfolding diag_best_def by auto
  show ?thesis
    unfolding find_longest_match_def Let_def b(1) bjunk_def
    using b(2) by (simp add: extend_left_same extend_right_same extend_left_never extend_right_never)
qed

lemma matching_loop_same:
  assumes "s \<noteq> []"
  shows "matching_loop s s [(0, length s, 0, length s)] [] = [(0, 0, length s)]"
  using assms by (subst matching_loop.simps(2)) (simp add: find_longest_match_same)

lemma ratio_same: "ratio s s = 1"
proof (cases "s = []")
  case True
  then show ?thesis by (simp add: ratio_def calculate_ratio_def)
next
  case False
  have "matched (get_matching_blocks s s) = length s"
    by (simp add: get_matching_blocks_matched matching_loop_same[OF False])
  then show ?thesis using False
    unfolding ratio_def calculate_ratio_def matched_def[symmetric] by simp
qed

lemma find_longest_match_empty_a: "find_longest_match [] b 0 0 0 bhi = (0, 0, 0)"
  by (simp add: find_longest_match_def extend_left.simps extend_right.simps)

lemma ratio_empty_a:
  assumes "b \<noteq> []"
  shows "ratio [] b = 0"
proof -
  have "matching_loop [] b [(0, 0, 0, length b)] [] = []"
    by (subst matching_loop.simps(2)) (simp add: find_longest_match_empty_a)
  then have "matched (get_matching_blocks [] b) = 0"
    by (simp add: get_matching_blocks_matched)
  then show ?thesis using assms
    unfolding ratio_def calculate_ratio_def matched_def[symmetric] by simp
qed


section \<open>Text normalisation and keywords (\<open>trusted_sources.py\<close>)\<close>

text \<open>
  Texts are strings of ASCII characters. On them \<open>lower_char\<close> is \<open>str.lower\<close>,
  \<open>is_word_char\<close> is the class \<open>\w\<close> and \<open>is_space_char\<close> is the class \<open>\s\<close>, which is also
  the white space that \<open>str.split()\<close> splits at. A character outside ASCII is left as it is
  and counted as a word character; no statement below depends on that choice.
\<close>

definition lower_char :: "char \<Rightarrow> char" where
  "lower_char c =
     (let n = (of_char c :: nat) in if 65 \<le> n \<and> n \<le> 90 then char_of (n + 32) else c)"

definition is_word_char :: "char \<Rightarrow> bool" where
  "is_word_char c =
     (let n = (of_char c :: nat)
      in (48 \<le> n \<and> n \<le> 57) \<or> (65 \<le> n \<and> n \<le> 90) \<or> n = 95 \<or> (97 \<le> n \<and> n \<le> 122) \<or> 128 \<le> n)"

definition is_space_char :: "char \<Rightarrow> bool" where
  "is_space_char c = (let n = (of_char c :: nat) in (9 \<le> n \<and> n \<le> 13) \<or> (28 \<le> n \<and> n \<le> 32))"

text \<open>\<open>text.split()\<close>: the maximal runs of characters that are not white space.\<close>

fun split_acc :: "string \<Rightarrow> string \<Rightarrow> string list" where
  "split_acc cur [] = (if cur = [] then [] else [cur])"
| "split_acc cur (c # cs) =
     (if is_space_char c
      then (if cur = [] then split_acc [] cs else cur # split_acc [] cs)
      else split_acc (cur @ [c]) cs)"

definition split :: "string \<Rightarrow> string list" where
  "split s = split_acc [] s"

text \<open>\<open>sep.join(words)\<close>.\<close>

fun join :: "string \<Rightarrow> string list \<Rightarrow> string" where
  "join sep [] = []"
| "join sep [w] = w"
| "join sep (w # ws) = w @ sep @ join sep ws"

definition preprocess_text :: "string \<Rightarrow> string" where
  "preprocess_text text =
     (let text = map lower_char text;
          text = filter (\<lambda>c. is_word_char c \<or> is_space_char c) text;
          text = join '' '' (split text)
      in text)"

text \<open>
  \<open>extract_keywords\<close> calls NLTK: the tokenizer \<open>word_tokenize\<close>, the list
  \<open>stopwords.words('romanian')\<close> and the Romanian Snowball stemmer. They are not part of the
  repository and are parameters here, gathered in a record.
\<close>

record nltk =
  word_tokenize :: "string \<Rightarrow> string list"
  stopwords_words :: "string list"
  stemmer_stem :: "string \<Rightarrow> string"

definition extract_keywords :: "nltk \<Rightarrow> string \<Rightarrow> string list" where
  "extract_keywords nl text =
     (let tokens = word_tokenize nl (map lower_char text);
          stop_words = set (stopwords_words nl);
          filtered_tokens = filter (\<lambda>word. word \<notin> stop_words) tokens;
          stemmed_tokens = map (stemmer_stem nl) filtered_tokens
      in stemmed_tokens)"

section \<open>The trust registry (\<open>trusted_sources.py\<close>)\<close>

datatype error = FileNotFoundError | JSONDecodeError | ZeroDivisionError | ValueError

text \<open>
  An entry of \<open>trusted_sources.json\<close> carries a \<open>trust_level\<close>; its other keys (the scrape
  configuration) live in the extension of the record. The file itself is absent, is not
  JSON, or holds an object that maps source names to entries.
\<close>

record trusted_source =
  trust_level :: real

datatype sources_file =
  Absent | Malformed | Content "string \<rightharpoonup> trusted_source"

text \<open>What \<open>open\<close> followed by \<open>json.load\<close> does on the file.\<close>

definition json_load :: "sources_file \<Rightarrow> error + (string \<rightharpoonup> trusted_source)" where
  "json_load f =
     (case f of
        Absent \<Rightarrow> Inl FileNotFoundError
      | Malformed \<Rightarrow> Inl JSONDecodeError
      | Content sources \<Rightarrow> Inr sources)"

text \<open>The \<open>try\<close> of \<open>load_trusted_sources\<close> with its two \<open>except\<close> clauses.\<close>

definition load_trusted_sources :: "sources_file \<Rightarrow> error + (string \<rightharpoonup> trusted_source)" where
  "load_trusted_sources f =
     (case json_load f of
        Inr sources \<Rightarrow> Inr sources
      | Inl FileNotFoundError \<Rightarrow> Inr Map.empty
      | Inl JSONDecodeError \<Rightarrow> Inr Map.empty
      | Inl e \<Rightarrow> Inl e)"

definition get_source_trust_level :: "sources_file \<Rightarrow> string \<Rightarrow> error + real" where
  "get_source_trust_level f source_name =
     (case load_trusted_sources f of
        Inl e \<Rightarrow> Inl e
      | Inr sources \<Rightarrow>
          (case sources source_name of
             Some source \<Rightarrow> Inr (trust_level source)
           | None \<Rightarrow> Inr 0))"

section \<open>The veracity evaluator (\<open>verify_veracity\<close>)\<close>

text \<open>
  An article is the dictionary that \<open>scrape_source\<close> builds: six keys, each with a string.
  Scores are Python floats, modelled by the real numbers.
\<close>

record article =
  title :: string
  link :: string
  image_url :: string
  description :: string
  author :: string
  date :: string

record match_result =
  article :: article
  match_score :: real
  title_similarity :: real
  description_similarity :: real
  keyword_overlap :: real

record results =
  veracity_score :: real
  confidence :: real
  matches :: "match_result list"
  verdict :: string

text \<open>Python's \<open>/\<close> on two lengths: it raises \<open>ZeroDivisionError\<close> for a zero divisor.\<close>

definition true_div :: "nat \<Rightarrow> nat \<Rightarrow> error + real" where
  "true_div m n = (if n = 0 then Inl ZeroDivisionError else Inr (real m / real n))"

text \<open>
  The body of the loop \<open>for article in articles\<close> up to the computation of
  \<open>match_score\<close>: the entry that would be appended to \<open>results['matches']\<close>.
\<close>

definition score_article :: "nltk \<Rightarrow> string \<Rightarrow> string list \<Rightarrow> article \<Rightarrow> error + match_result" where
  "score_article nl processed_input input_keywords a =
     (let processed_article = preprocess_text (title a @ '' '' @ description a);
          article_keywords = extract_keywords nl processed_article;
          title_sim = calculate_similarity processed_input (title a);
          desc_sim = calculate_similarity processed_input (description a)
      in case true_div (card (set input_keywords \<inter> set article_keywords))
                       (card (set input_keywords \<union> set article_keywords)) of
           Inl e \<Rightarrow> Inl e
         | Inr overlap \<Rightarrow>
             Inr \<lparr>article = a,
                  match_score = title_sim * 0.4 + desc_sim * 0.4 + overlap * 0.2,
                  title_similarity = title_sim,
                  description_similarity = desc_sim,
                  keyword_overlap = overlap\<rparr>)"

fun analyze_articles ::
  "nltk \<Rightarrow> string \<Rightarrow> string list \<Rightarrow> article list \<Rightarrow> match_result list \<Rightarrow> error + match_result list"
where
  "analyze_articles nl processed_input input_keywords [] ms = Inr ms"
| "analyze_articles nl processed_input input_keywords (a # as) ms =
     (case score_article nl processed_input input_keywords a of
        Inl e \<Rightarrow> Inl e
      | Inr m \<Rightarrow>
          if match_score m > 0.3
          then analyze_articles nl processed_input input_keywords as (ms @ [m])
          else analyze_articles nl processed_input input_keywords as ms)"

text \<open>
  \<open>list.sort(key=..., reverse=True)\<close>: CPython reverses the list, sorts it stably in
  ascending order of the key and reverses the result, which keeps elements with equal keys
  in their original order.
\<close>

definition sort_reverse :: "('a \<Rightarrow> real) \<Rightarrow> 'a list \<Rightarrow> 'a list" where
  "sort_reverse key xs = rev (sort_key key (rev xs))"

definition verdict_of :: "real \<Rightarrow> string" where
  "verdict_of score =
     (if score > 0.7 then ''true''
      else if score > 0.4 then ''likely_true''
      else if score > 0.2 then ''likely_false''
      else ''false'')"

definition verify_veracity :: "nltk \<Rightarrow> sources_file \<Rightarrow> string \<Rightarrow> article list \<Rightarrow> error + results" where
  "verify_veracity nl f input_text articles =
     (let processed_input = preprocess_text input_text;
          input_keywords = extract_keywords nl processed_input
      in case analyze_articles nl processed_input input_keywords articles [] of
           Inl e \<Rightarrow> Inl e
         | Inr ms \<Rightarrow>
             if ms \<noteq> []
             then
               (let ms = sort_reverse match_score ms;
                    best_match = ms ! 0
                in case get_source_trust_level f ''veridica'' of
                     Inl e \<Rightarrow> Inl e
                   | Inr source_trust \<Rightarrow>
                       (let score = match_score best_match * source_trust
                        in Inr \<lparr>veracity_score = score,
                                confidence = min 1 (real (length ms) * 0.2),
                                matches = ms,
                                verdict = verdict_of score\<rparr>))
             else Inr \<lparr>veracity_score = 0, confidence = 0, matches = [], verdict = ''unknown''\<rparr>)"

section \<open>The similar-article finder (\<open>article_analyzer.py\<close>)\<close>

text \<open>
  \<open>ArticleAnalyzer\<close> holds a spaCy pipeline and a TF-IDF vectorizer. Neither is part of the
  repository: \<open>nlp\<close> gives the tokens of a text, each with its lemma and two flags, and
  \<open>tfidf_cosine\<close> is \<open>fit_transform\<close> followed by \<open>cosine_similarity\<close>, which may raise.
  \<open>article.get(key, '')\<close> reads a field of the article; a missing key reads as the empty
  string.
\<close>

record token =
  token_lemma :: string
  is_stop :: bool
  is_punct :: bool

record analyzer =
  nlp :: "string \<Rightarrow> token list"
  tfidf_cosine :: "string \<Rightarrow> string \<Rightarrow> error + real"

definition analyzer_preprocess_text :: "analyzer \<Rightarrow> string \<Rightarrow> string" where
  "analyzer_preprocess_text self text =
     (let doc = nlp self (map lower_char text)
      in join '' '' (map token_lemma (filter (\<lambda>token. \<not> is_stop token \<and> \<not> is_punct token) doc)))"

definition analyzer_calculate_similarity :: "analyzer \<Rightarrow> string \<Rightarrow> string \<Rightarrow> error + real" where
  "analyzer_calculate_similarity self text1 text2 = tfidf_cosine self text1 text2"

record similar_article =
  sa_title :: string
  sa_link :: string
  sa_description :: string
  similarity :: real
  is_bad :: bool

fun similar_loop ::
  "analyzer \<Rightarrow> string \<Rightarrow> article list \<Rightarrow> bool \<Rightarrow> real \<Rightarrow> similar_article list
     \<Rightarrow> error + similar_article list"
where
  "similar_loop self preprocessed_input [] bad threshold res = Inr res"
| "similar_loop self preprocessed_input (a # as) bad threshold res =
     (let article_text = title a @ '' '' @ description a
      in if article_text = [] then similar_loop self preprocessed_input as bad threshold res
         else
           (let preprocessed_article = analyzer_preprocess_text self article_text
            in case analyzer_calculate_similarity self preprocessed_input preprocessed_article of
                 Inl e \<Rightarrow> Inl e
               | Inr sim \<Rightarrow>
                   if sim > threshold
                   then similar_loop self preprocessed_input as bad threshold
                          (res @ [\<lparr>sa_title = title a, sa_link = link a,
                                   sa_description = description a,
                                   similarity = sim, is_bad = bad\<rparr>])
                   else similar_loop self preprocessed_input as bad threshold res))"

definition find_similar_articles ::
  "analyzer \<Rightarrow> string \<Rightarrow> article list \<Rightarrow> bool \<Rightarrow> real \<Rightarrow> error + similar_article list"
where
  "find_similar_articles self input_text articles bad threshold =
     similar_loop self (analyzer_preprocess_text self input_text) articles bad threshold []"

section \<open>Concrete inputs\<close>

text \<open>
  Stand-ins for the NLTK parameters, used where a statement is evaluated at a concrete
  input: white-space tokens, two stop words, the identity as stemmer. And a registry file
  with one source.
\<close>

definition sample_nltk :: nltk where
  "sample_nltk =
     \<lparr>word_tokenize = split, stopwords_words = [''si'', ''sunt''], stemmer_stem = (\<lambda>w. w)\<rparr>"

definition sample_sources :: sources_file where
  "sample_sources = Content [''veridica'' \<mapsto> \<lparr>trust_level = 0.9\<rparr>]"

definition mk_article :: "string \<Rightarrow> string \<Rightarrow> article" where
  "mk_article t d =
     \<lparr>title = t, link = [], image_url = [], description = d, author = [], date = []\<rparr>"

section \<open>Texts without a common character\<close>





section \<open>Claims\<close>




text \<open>
  C9: for every non-empty text \<open>a\<close>, \<open>calculate_similarity(a, a) = 1.0\<close>.
\<close>

theorem calculate_similarity_self:
  assumes "a \<noteq> []"
  shows "calculate_similarity a a = 1"
  using assms by (simp add: calculate_similarity_def ratio_same)

theorem calculate_similarity_self_witness:
  "''vaccinurile sunt sigure'' \<noteq> []
   \<and> calculate_similarity ''vaccinurile sunt sigure'' ''vaccinurile sunt sigure'' = 1"
proof -
  have h: "''vaccinurile sunt sigure'' \<noteq> []" by simp
  show ?thesis using h calculate_similarity_self[OF h] by blast
qed

text \<open>
  C10: \<open>calculate_similarity("", "") = 1.0\<close>; an empty claim is preprocessed to the empty
  text, so the entry that \<open>verify_veracity\<close> computes for an article with an empty title has
  \<open>title_similarity = 1.0\<close>.
\<close>

theorem calculate_similarity_empty_empty:
  "calculate_similarity [] [] = 1 \<and> preprocess_text [] = []
   \<and> (title a = [] \<and> score_article nl (preprocess_text []) input_keywords a = Inr m
        \<longrightarrow> title_similarity m = 1)"
proof -
  have r: "calculate_similarity [] [] = 1"
    by (simp add: calculate_similarity_def ratio_same)
  have p: "preprocess_text [] = []"
    by (simp add: preprocess_text_def split_def)
  have "title_similarity m = calculate_similarity (preprocess_text []) (title a)"
    if "score_article nl (preprocess_text []) input_keywords a = Inr m"
    using that by (auto simp: score_article_def Let_def split: sum.splits)
  then show ?thesis using r p by auto
qed

theorem calculate_similarity_empty_empty_witness:
  "title (mk_article [] ''abc'') = []
   \<and> score_article sample_nltk (preprocess_text []) [] (mk_article [] ''abc'') =
       Inr \<lparr>article = mk_article [] ''abc'', match_score = 0.4, title_similarity = 1,
            description_similarity = 0, keyword_overlap = 0\<rparr>
   \<and> title_similarity \<lparr>article = mk_article [] ''abc'', match_score = 0.4, title_similarity = 1,
            description_similarity = 0, keyword_overlap = 0\<rparr> = 1"
proof -
  have t: "title (mk_article [] ''abc'') = []" by (simp add: mk_article_def)
  have s: "score_article sample_nltk (preprocess_text []) [] (mk_article [] ''abc'') =
       Inr \<lparr>article = mk_article [] ''abc'', match_score = 0.4, title_similarity = 1,
            description_similarity = 0, keyword_overlap = 0\<rparr>"
    by code_simp
  show ?thesis
    using t s calculate_similarity_empty_empty[of "mk_article [] ''abc''" sample_nltk "[]"
        "\<lparr>article = mk_article [] ''abc'', match_score = 0.4, title_similarity = 1,
            description_similarity = 0, keyword_overlap = 0\<rparr>"]
    by blast
qed


section \<open>Facts about the evaluator\<close>

text \<open>
  \<open>evaluate_article\<close> is the entry that \<open>verify_veracity\<close> computes for one article of its
  input; \<open>admit\<close> is the test \<open>match_score > 0.3\<close> of the loop on that article, and
  \<open>admitted_matches\<close> lists the admitted entries in the order of the input.
\<close>

definition evaluate_article :: "nltk \<Rightarrow> string \<Rightarrow> article \<Rightarrow> error + match_result" where
  "evaluate_article nl input_text a =
     score_article nl (preprocess_text input_text)
       (extract_keywords nl (preprocess_text input_text)) a"

definition admit :: "nltk \<Rightarrow> string \<Rightarrow> article \<Rightarrow> match_result option" where
  "admit nl input_text a =
     (case evaluate_article nl input_text a of
        Inl e \<Rightarrow> None
      | Inr m \<Rightarrow> if match_score m > 0.3 then Some m else None)"

definition admitted_matches :: "nltk \<Rightarrow> string \<Rightarrow> article list \<Rightarrow> match_result list" where
  "admitted_matches nl input_text articles = List.map_filter (admit nl input_text) articles"

definition empty_results :: results where
  "empty_results = \<lparr>veracity_score = 0, confidence = 0, matches = [], verdict = ''unknown''\<rparr>"

lemma analyze_articles_Inr:
  assumes "analyze_articles nl (preprocess_text t) (extract_keywords nl (preprocess_text t)) as ms = Inr res"
  shows "res = ms @ admitted_matches nl t as \<and> (\<forall>a\<in>set as. \<exists>m. evaluate_article nl t a = Inr m)"
  using assms
proof (induction as arbitrary: ms)
  case Nil
  then show ?case by (simp add: admitted_matches_def)
next
  case (Cons a as)
  obtain m where m: "evaluate_article nl t a = Inr m"
    using Cons.prems by (cases "evaluate_article nl t a") (simp_all add: evaluate_article_def)
  show ?case
  proof (cases "match_score m > 0.3")
    case True
    then have "analyze_articles nl (preprocess_text t) (extract_keywords nl (preprocess_text t)) as (ms @ [m]) = Inr res"
      using Cons.prems m by (simp add: evaluate_article_def)
    from Cons.IH[OF this] show ?thesis
      using m True by (simp add: admitted_matches_def admit_def)
  next
    case False
    then have "analyze_articles nl (preprocess_text t) (extract_keywords nl (preprocess_text t)) as ms = Inr res"
      using Cons.prems m by (simp add: evaluate_article_def)
    from Cons.IH[OF this] show ?thesis
      using m False by (simp add: admitted_matches_def admit_def)
  qed
qed

lemma verify_veracity_Inr:
  assumes "verify_veracity nl f t as = Inr r"
  shows "(\<forall>a\<in>set as. \<exists>m. evaluate_article nl t a = Inr m) \<and>
         (if admitted_matches nl t as = [] then r = empty_results
          else \<exists>trust. get_source_trust_level f ''veridica'' = Inr trust \<and>
                 r = \<lparr>veracity_score = match_score (sort_reverse match_score (admitted_matches nl t as) ! 0) * trust,
                      confidence = min 1 (real (length (sort_reverse match_score (admitted_matches nl t as))) * 0.2),
                      matches = sort_reverse match_score (admitted_matches nl t as),
                      verdict = verdict_of (match_score (sort_reverse match_score (admitted_matches nl t as) ! 0) * trust)\<rparr>)"
proof -
  obtain ms where ms: "analyze_articles nl (preprocess_text t) (extract_keywords nl (preprocess_text t)) as [] = Inr ms"
    using assms
    by (cases "analyze_articles nl (preprocess_text t) (extract_keywords nl (preprocess_text t)) as []")
       (simp_all add: verify_veracity_def Let_def)
  have a: "ms = admitted_matches nl t as" "\<forall>a\<in>set as. \<exists>m. evaluate_article nl t a = Inr m"
    using analyze_articles_Inr[OF ms] by simp_all
  show ?thesis
  proof (cases "ms = []")
    case True
    then show ?thesis using assms ms a
      by (simp add: verify_veracity_def Let_def empty_results_def)
  next
    case False
    then show ?thesis using assms ms a
      by (auto simp: verify_veracity_def Let_def split: sum.splits)
  qed
qed

lemma sort_reverse_sorted: "sorted_wrt (\<lambda>x y. key y \<le> key x) (sort_reverse key xs)"
proof -
  have "sorted_wrt (\<lambda>x y. key x \<le> key y) (sort_key key (rev xs))"
    using sorted_sort_key[of key "rev xs"] by (simp add: sorted_map)
  then show ?thesis by (simp add: sort_reverse_def sorted_wrt_rev)
qed

lemma sort_reverse_stable:
  "filter (\<lambda>x. key x = k) (sort_reverse key xs) = filter (\<lambda>x. key x = k) xs"
proof -
  have "filter (\<lambda>x. key x = k) (sort_reverse key xs) = rev (filter (\<lambda>x. key x = k) (sort_key key (rev xs)))"
    by (simp add: sort_reverse_def rev_filter)
  also have "\<dots> = rev (filter (\<lambda>x. key x = k) (rev xs))" by (simp add: sort_key_stable)
  also have "\<dots> = filter (\<lambda>x. key x = k) xs" by (simp add: rev_filter)
  finally show ?thesis .
qed

lemma sort_reverse_set [simp]: "set (sort_reverse key xs) = set xs"
  by (simp add: sort_reverse_def)

lemma sort_reverse_length [simp]: "length (sort_reverse key xs) = length xs"
  by (simp add: sort_reverse_def)

lemma sort_reverse_Nil [simp]: "sort_reverse key xs = [] \<longleftrightarrow> xs = []"
  by (metis length_0_conv sort_reverse_length)

lemma admitted_matches_set:
  "m \<in> set (admitted_matches nl t as) \<longleftrightarrow>
   (\<exists>a\<in>set as. evaluate_article nl t a = Inr m \<and> match_score m > 0.3)"
proof (induction as)
  case Nil
  then show ?case by (simp add: admitted_matches_def)
next
  case (Cons a as)
  have "admitted_matches nl t (a # as) =
        (case admit nl t a of None \<Rightarrow> admitted_matches nl t as
         | Some y \<Rightarrow> y # admitted_matches nl t as)"
    unfolding admitted_matches_def by simp
  then show ?case using Cons
    by (cases "evaluate_article nl t a") (auto simp: admit_def)
qed

lemma score_article_fields:
  assumes "score_article nl p ks a = Inr m"
  shows "article m = a \<and> title_similarity m = calculate_similarity p (title a)
         \<and> description_similarity m = calculate_similarity p (description a)
         \<and> true_div (card (set ks \<inter> set (extract_keywords nl (preprocess_text (title a @ '' '' @ description a)))))
                     (card (set ks \<union> set (extract_keywords nl (preprocess_text (title a @ '' '' @ description a)))))
             = Inr (keyword_overlap m)
         \<and> match_score m = title_similarity m * 0.4 + description_similarity m * 0.4 + keyword_overlap m * 0.2"
  using assms by (auto simp: score_article_def Let_def split: sum.splits)

lemma true_div_bounds:
  assumes "true_div (card (A \<inter> B)) (card (A \<union> B)) = Inr q" "finite A" "finite B"
  shows "0 \<le> q \<and> q \<le> 1"
proof -
  have n: "card (A \<union> B) \<noteq> 0" and q: "q = real (card (A \<inter> B)) / real (card (A \<union> B))"
    using assms(1) by (auto simp: true_div_def split: if_splits)
  have "card (A \<inter> B) \<le> card (A \<union> B)"
    using assms(2,3) by (intro card_mono) auto
  then show ?thesis using n q by (simp add: divide_le_eq)
qed

lemma score_article_bounds:
  assumes "score_article nl p ks a = Inr m"
  shows "0 \<le> title_similarity m \<and> title_similarity m \<le> 1
         \<and> 0 \<le> description_similarity m \<and> description_similarity m \<le> 1
         \<and> 0 \<le> keyword_overlap m \<and> keyword_overlap m \<le> 1
         \<and> 0 \<le> match_score m \<and> match_score m \<le> 1"
proof -
  note f = score_article_fields[OF assms]
  have t: "0 \<le> title_similarity m \<and> title_similarity m \<le> 1"
    using f ratio_bounds[of p "title a"] by (simp add: calculate_similarity_def)
  have d: "0 \<le> description_similarity m \<and> description_similarity m \<le> 1"
    using f ratio_bounds[of p "description a"] by (simp add: calculate_similarity_def)
  have k: "0 \<le> keyword_overlap m \<and> keyword_overlap m \<le> 1"
    using f true_div_bounds[of "set ks"
        "set (extract_keywords nl (preprocess_text (title a @ '' '' @ description a)))"
        "keyword_overlap m"] by simp
  have "match_score m = title_similarity m * 0.4 + description_similarity m * 0.4 + keyword_overlap m * 0.2"
    using f by simp
  then show ?thesis using t d k by simp
qed

lemma preprocess_text_Nil: "preprocess_text [] = []"
  by (simp add: preprocess_text_def split_def)

lemma score_article_empty_union:
  assumes "set input_keywords \<union>
           set (extract_keywords nl (preprocess_text (title a @ '' '' @ description a))) = {}"
  shows "score_article nl processed_input input_keywords a = Inl ZeroDivisionError"
  using assms by (simp add: score_article_def Let_def true_div_def)

lemma score_article_empty_claim:
  assumes "title a \<noteq> []" "description a \<noteq> []"
    and "extract_keywords nl (preprocess_text (title a @ '' '' @ description a)) \<noteq> []"
  shows "score_article nl [] [] a =
         Inr \<lparr>article = a, match_score = 0, title_similarity = 0,
              description_similarity = 0, keyword_overlap = 0\<rparr>"
proof -
  let ?K = "set (extract_keywords nl (preprocess_text (title a @ '' '' @ description a)))"
  have "card ?K \<noteq> 0" using assms(3) by simp
  then have "true_div (card ({} \<inter> ?K)) (card ({} \<union> ?K)) = Inr 0"
    by (simp add: true_div_def)
  then show ?thesis
    using assms(1,2)
    by (simp add: score_article_def Let_def calculate_similarity_def ratio_empty_a)
qed

lemma analyze_articles_empty_claim:
  assumes "\<forall>a\<in>set as. title a \<noteq> [] \<and> description a \<noteq> [] \<and>
             extract_keywords nl (preprocess_text (title a @ '' '' @ description a)) \<noteq> []"
  shows "analyze_articles nl [] [] as ms = Inr ms"
  using assms by (induction as) (simp_all add: score_article_empty_claim)

section \<open>Claims about the evaluator\<close>

text \<open>
  C1: when the union of the two keyword sets is empty, \<open>keyword_overlap\<close> is 0.0 and no
  exception is raised. The code divides by the size of the union without a guard: for the
  empty claim and an article whose title and description are empty, \<open>verify_veracity\<close>
  raises \<open>ZeroDivisionError\<close>.
\<close>

theorem verify_veracity_empty_union_raises:
  "verify_veracity sample_nltk sample_sources [] [mk_article [] []] = Inl ZeroDivisionError"
  by code_simp

text \<open>
  C2, as stated: for the empty claim and any article list, and for any claim and the empty
  article list, \<open>verify_veracity\<close> returns the result without matches. It fails for the
  empty claim: an article with an empty title scores \<open>title_similarity = 1.0\<close>, hence
  \<open>match_score = 0.4\<close>, and is a match.
\<close>

theorem verify_veracity_empty_claim_matches:
  "verify_veracity sample_nltk sample_sources [] [mk_article [] ''abc''] =
     Inr \<lparr>veracity_score = 0.36, confidence = 0.2,
          matches = [\<lparr>article = mk_article [] ''abc'', match_score = 0.4, title_similarity = 1,
                      description_similarity = 0, keyword_overlap = 0\<rparr>],
          verdict = ''likely_false''\<rparr>
   \<and> verify_veracity sample_nltk sample_sources [] [mk_article [] ''abc''] \<noteq>
     Inr \<lparr>veracity_score = 0, confidence = 0, matches = [], verdict = ''unknown''\<rparr>"
  by code_simp

text \<open>
  C2, amended: for every claim text when the article list is empty, and for the empty
  claim text (which has no keywords) when every article of the list has a non-empty title,
  a non-empty description and at least one keyword, \<open>verify_veracity\<close> raises no exception
  and returns \<open>{veracity_score: 0.0, confidence: 0.0, matches: [], verdict: "unknown"}\<close>.
\<close>

theorem verify_veracity_empty_inputs:
  "verify_veracity nl f input_text [] =
     Inr \<lparr>veracity_score = 0, confidence = 0, matches = [], verdict = ''unknown''\<rparr>
   \<and> (extract_keywords nl [] = []
        \<and> (\<forall>a\<in>set articles. title a \<noteq> [] \<and> description a \<noteq> [] \<and>
              extract_keywords nl (preprocess_text (title a @ '' '' @ description a)) \<noteq> [])
      \<longrightarrow> verify_veracity nl f [] articles =
            Inr \<lparr>veracity_score = 0, confidence = 0, matches = [], verdict = ''unknown''\<rparr>)"
proof (intro conjI impI)
  show "verify_veracity nl f input_text [] =
     Inr \<lparr>veracity_score = 0, confidence = 0, matches = [], verdict = ''unknown''\<rparr>"
    by (simp add: verify_veracity_def Let_def)
next
  assume h: "extract_keywords nl [] = []
        \<and> (\<forall>a\<in>set articles. title a \<noteq> [] \<and> description a \<noteq> [] \<and>
              extract_keywords nl (preprocess_text (title a @ '' '' @ description a)) \<noteq> [])"
  then have "analyze_articles nl [] [] articles [] = Inr []"
    using analyze_articles_empty_claim[of articles nl "[]"] by blast
  then show "verify_veracity nl f [] articles =
            Inr \<lparr>veracity_score = 0, confidence = 0, matches = [], verdict = ''unknown''\<rparr>"
    using h by (simp add: verify_veracity_def Let_def preprocess_text_Nil)
qed

theorem verify_veracity_empty_inputs_witness:
  "extract_keywords sample_nltk [] = []
   \<and> title (mk_article ''Vaccin'' ''sigur'') \<noteq> []
   \<and> description (mk_article ''Vaccin'' ''sigur'') \<noteq> []
   \<and> extract_keywords sample_nltk
         (preprocess_text (title (mk_article ''Vaccin'' ''sigur'') @ '' '' @
                           description (mk_article ''Vaccin'' ''sigur''))) \<noteq> []
   \<and> verify_veracity sample_nltk sample_sources ''apa'' [] =
       Inr \<lparr>veracity_score = 0, confidence = 0, matches = [], verdict = ''unknown''\<rparr>
   \<and> verify_veracity sample_nltk sample_sources [] [mk_article ''Vaccin'' ''sigur''] =
       Inr \<lparr>veracity_score = 0, confidence = 0, matches = [], verdict = ''unknown''\<rparr>"
proof -
  have h1: "extract_keywords sample_nltk [] = []" by code_simp
  have h2: "extract_keywords sample_nltk
              (preprocess_text (title (mk_article ''Vaccin'' ''sigur'') @ '' '' @
                                description (mk_article ''Vaccin'' ''sigur''))) \<noteq> []"
    by code_simp
  have h3: "title (mk_article ''Vaccin'' ''sigur'') \<noteq> []"
    and h4: "description (mk_article ''Vaccin'' ''sigur'') \<noteq> []"
    by (simp_all add: mk_article_def)
  have h: "extract_keywords sample_nltk [] = []
     \<and> (\<forall>a\<in>set [mk_article ''Vaccin'' ''sigur'']. title a \<noteq> [] \<and> description a \<noteq> [] \<and>
           extract_keywords sample_nltk (preprocess_text (title a @ '' '' @ description a)) \<noteq> [])"
    using h1 h2 h3 h4 by simp
  show ?thesis
    using h h1 h2 h3 h4 verify_veracity_empty_inputs[of sample_nltk sample_sources "''apa''"
        "[mk_article ''Vaccin'' ''sigur'']"]
    by blast
qed

text \<open>
  C3: when \<open>verify_veracity\<close> returns a non-empty list of matches, \<open>veracity_score\<close> is the
  \<open>match_score\<close> of the first match times the trust level of the source (the code asks the
  registry for \<open>'veridica'\<close>), \<open>confidence = min(1.0, |matches| * 0.2)\<close>, and the verdict
  follows the thresholds 0.7, 0.4 and 0.2.
\<close>

theorem verify_veracity_scores:
  assumes "verify_veracity nl f input_text articles = Inr r" "matches r \<noteq> []"
  shows "(\<exists>trust. get_source_trust_level f ''veridica'' = Inr trust
            \<and> veracity_score r = match_score (matches r ! 0) * trust)
         \<and> confidence r = min 1 (real (length (matches r)) * 0.2)
         \<and> verdict r =
             (if veracity_score r > 0.7 then ''true''
              else if veracity_score r > 0.4 then ''likely_true''
              else if veracity_score r > 0.2 then ''likely_false''
              else ''false'')"
proof -
  note v = verify_veracity_Inr[OF assms(1)]
  have ne: "admitted_matches nl input_text articles \<noteq> []"
    using v assms(2) by (auto simp: empty_results_def split: if_splits)
  then obtain trust where t: "get_source_trust_level f ''veridica'' = Inr trust"
    and r: "r = \<lparr>veracity_score = match_score (sort_reverse match_score (admitted_matches nl input_text articles) ! 0) * trust,
                 confidence = min 1 (real (length (sort_reverse match_score (admitted_matches nl input_text articles))) * 0.2),
                 matches = sort_reverse match_score (admitted_matches nl input_text articles),
                 verdict = verdict_of (match_score (sort_reverse match_score (admitted_matches nl input_text articles) ! 0) * trust)\<rparr>"
    using v by auto
  show ?thesis
    using t by (simp add: r verdict_of_def)
qed



theorem verify_veracity_scores_witness:
  "verify_veracity sample_nltk sample_sources ''apa'' [mk_article ''apa'' ''apa''] =
     Inr \<lparr>veracity_score = 0.9, confidence = 0.2,
          matches = [\<lparr>article = mk_article ''apa'' ''apa'', match_score = 1, title_similarity = 1,
                      description_similarity = 1, keyword_overlap = 1\<rparr>],
          verdict = ''true''\<rparr>
   \<and> get_source_trust_level sample_sources ''veridica'' = Inr 0.9
   \<and> (\<exists>trust. get_source_trust_level sample_sources ''veridica'' = Inr trust
          \<and> (0.9 :: real) = 1 * trust)
   \<and> (0.2 :: real) = min 1 (real (length [mk_article ''apa'' ''apa'']) * 0.2)"
proof -
  let ?r = "\<lparr>veracity_score = 0.9, confidence = 0.2,
          matches = [\<lparr>article = mk_article ''apa'' ''apa'', match_score = 1, title_similarity = 1,
                      description_similarity = 1, keyword_overlap = 1\<rparr>],
          verdict = ''true''\<rparr>"
  have h1: "verify_veracity sample_nltk sample_sources ''apa'' [mk_article ''apa'' ''apa''] = Inr ?r"
    by code_simp
  have h2: "matches ?r \<noteq> []" by simp
  have t: "get_source_trust_level sample_sources ''veridica'' = Inr 0.9"
    by (simp add: get_source_trust_level_def load_trusted_sources_def json_load_def
        sample_sources_def)
  show ?thesis
    using h1 t verify_veracity_scores[OF h1 h2] by simp
qed

text \<open>
  C4: the matches that \<open>verify_veracity\<close> returns are exactly the entries of the articles
  whose \<open>match_score\<close> exceeds 0.3, in descending order of \<open>match_score\<close>, and entries with
  equal \<open>match_score\<close> keep the order they have in the input list.
\<close>

theorem verify_veracity_matches:
  assumes "verify_veracity nl f input_text articles = Inr r"
  shows "(\<forall>m. m \<in> set (matches r) \<longleftrightarrow>
              (\<exists>a\<in>set articles. evaluate_article nl input_text a = Inr m \<and> match_score m > 0.3))
         \<and> length (matches r) = length (admitted_matches nl input_text articles)
         \<and> sorted_wrt (\<lambda>x y. match_score y \<le> match_score x) (matches r)
         \<and> (\<forall>s. filter (\<lambda>m. match_score m = s) (matches r) =
                 filter (\<lambda>m. match_score m = s) (admitted_matches nl input_text articles))"
proof -
  note v = verify_veracity_Inr[OF assms]
  have m: "matches r = sort_reverse match_score (admitted_matches nl input_text articles)"
  proof (cases "admitted_matches nl input_text articles = []")
    case True
    then show ?thesis using v by (simp add: empty_results_def sort_reverse_def)
  next
    case False
    then show ?thesis using v by auto
  qed
  show ?thesis
    unfolding m
    by (simp add: admitted_matches_set sort_reverse_sorted sort_reverse_stable)
qed

theorem verify_veracity_matches_witness:
  "verify_veracity sample_nltk sample_sources ''apa''
     [mk_article ''apa'' ''rece'', mk_article ''x'' ''y'', mk_article ''apa'' ''nor''] =
     Inr \<lparr>veracity_score = 0.45, confidence = 0.4,
          matches = [\<lparr>article = mk_article ''apa'' ''rece'', match_score = 1 / 2,
                      title_similarity = 1, description_similarity = 0, keyword_overlap = 1 / 2\<rparr>,
                     \<lparr>article = mk_article ''apa'' ''nor'', match_score = 1 / 2,
                      title_similarity = 1, description_similarity = 0, keyword_overlap = 1 / 2\<rparr>],
          verdict = ''likely_true''\<rparr>
   \<and> sorted_wrt (\<lambda>x y. match_score y \<le> match_score x)
        [\<lparr>article = mk_article ''apa'' ''rece'', match_score = 1 / 2,
          title_similarity = 1, description_similarity = 0, keyword_overlap = 1 / 2\<rparr>,
         \<lparr>article = mk_article ''apa'' ''nor'', match_score = 1 / 2,
          title_similarity = 1, description_similarity = 0, keyword_overlap = 1 / 2\<rparr>]
   \<and> length (admitted_matches sample_nltk ''apa''
        [mk_article ''apa'' ''rece'', mk_article ''x'' ''y'', mk_article ''apa'' ''nor'']) = 2"
proof -
  let ?r = "\<lparr>veracity_score = 0.45, confidence = 0.4,
          matches = [\<lparr>article = mk_article ''apa'' ''rece'', match_score = 1 / 2,
                      title_similarity = 1, description_similarity = 0, keyword_overlap = 1 / 2\<rparr>,
                     \<lparr>article = mk_article ''apa'' ''nor'', match_score = 1 / 2,
                      title_similarity = 1, description_similarity = 0, keyword_overlap = 1 / 2\<rparr>],
          verdict = ''likely_true''\<rparr>"
  have h: "verify_veracity sample_nltk sample_sources ''apa''
     [mk_article ''apa'' ''rece'', mk_article ''x'' ''y'', mk_article ''apa'' ''nor''] = Inr ?r"
    by code_simp
  show ?thesis
    using h verify_veracity_matches[OF h] by simp
qed

lemma score_article_formula:
  assumes s: "score_article nl p ks a = Inr m"
  shows "match_score m =
            0.4 * title_similarity m + 0.4 * description_similarity m + 0.2 * keyword_overlap m"
proof -
  have "match_score m =
            title_similarity m * 0.4 + description_similarity m * 0.4 + keyword_overlap m * 0.2"
    using score_article_fields[OF s] by blast
  then show ?thesis by (simp add: mult.commute)
qed

definition well_scored :: "match_result \<Rightarrow> bool" where
  "well_scored m \<longleftrightarrow>
     match_score m =
       0.4 * title_similarity m + 0.4 * description_similarity m + 0.2 * keyword_overlap m
     \<and> 0 \<le> title_similarity m \<and> title_similarity m \<le> 1
     \<and> 0 \<le> description_similarity m \<and> description_similarity m \<le> 1
     \<and> 0 \<le> keyword_overlap m \<and> keyword_overlap m \<le> 1
     \<and> 0 \<le> match_score m \<and> match_score m \<le> 1"

lemma evaluate_article_well_scored:
  assumes "evaluate_article nl input_text a = Inr m"
  shows "well_scored m"
proof -
  have s: "score_article nl (preprocess_text input_text)
             (extract_keywords nl (preprocess_text input_text)) a = Inr m"
    using assms by (simp add: evaluate_article_def)
  show ?thesis
    unfolding well_scored_def
    using score_article_formula[OF s] score_article_bounds[OF s] by blast
qed

lemma verify_veracity_score_range:
  assumes "verify_veracity nl f input_text articles = Inr r"
    and "get_source_trust_level f ''veridica'' = Inr trust" "0 \<le> trust" "trust \<le> 1"
  shows "(matches r \<noteq> [] \<longrightarrow> veracity_score r = match_score (matches r ! 0) * trust)
         \<and> 0 \<le> veracity_score r \<and> veracity_score r \<le> 1"
proof -
  note v = verify_veracity_Inr[OF assms(1)]
  note v1 = v[THEN conjunct1] and v2 = v[THEN conjunct2]
  let ?ms = "sort_reverse match_score (admitted_matches nl input_text articles)"
  show ?thesis
  proof (cases "admitted_matches nl input_text articles = []")
    case True
    then have "r = empty_results" using v2 by simp
    then have "matches r = []" "veracity_score r = 0" by (simp_all add: empty_results_def)
    then show ?thesis by simp
  next
    case False
    then obtain trust' where t': "get_source_trust_level f ''veridica'' = Inr trust'"
      and r': "r = \<lparr>veracity_score = match_score (?ms ! 0) * trust',
                 confidence = min 1 (real (length ?ms) * 0.2),
                 matches = ?ms,
                 verdict = verdict_of (match_score (?ms ! 0) * trust')\<rparr>"
      using v2 by auto
    have tt: "trust' = trust" using t' assms(2) by simp
    have r: "veracity_score r = match_score (?ms ! 0) * trust" "matches r = ?ms"
      by (simp_all add: r' tt)
    have "?ms ! 0 \<in> set ?ms" using False by (intro nth_mem) simp
    then have "?ms ! 0 \<in> set (admitted_matches nl input_text articles)" by simp
    then obtain a where a: "a \<in> set articles" "evaluate_article nl input_text a = Inr (?ms ! 0)"
      unfolding admitted_matches_set by blast
    have "well_scored (?ms ! 0)" by (rule evaluate_article_well_scored[OF a(2)])
    then have b: "0 \<le> match_score (?ms ! 0)" "match_score (?ms ! 0) \<le> 1"
      by (simp_all add: well_scored_def)
    have lo: "0 \<le> veracity_score r" unfolding r(1) using b assms(3) by simp
    have hi: "veracity_score r \<le> 1" unfolding r(1) using b assms(3,4) by (simp add: mult_le_one)
    have vs: "veracity_score r = match_score (matches r ! 0) * trust" using r by simp
    show ?thesis using vs lo hi by blast
  qed
qed


text \<open>
  C5: for every article that \<open>verify_veracity\<close> evaluates, \<open>match_score = 0.4 *
  title_similarity + 0.4 * description_similarity + 0.2 * keyword_overlap\<close>, the three
  components lie in [0,1] and so does \<open>match_score\<close>; with a trust level in [0,1],
  \<open>veracity_score\<close>, the best \<open>match_score\<close> times the trust level, lies in [0,1] too.
\<close>

theorem verify_veracity_bounds:
  assumes "verify_veracity nl f input_text articles = Inr r"
    and "get_source_trust_level f ''veridica'' = Inr trust" "0 \<le> trust" "trust \<le> 1"
  shows "(\<forall>a\<in>set articles. \<exists>m. evaluate_article nl input_text a = Inr m
            \<and> (match_score m =
                0.4 * title_similarity m + 0.4 * description_similarity m + 0.2 * keyword_overlap m
            \<and> 0 \<le> title_similarity m \<and> title_similarity m \<le> 1
            \<and> 0 \<le> description_similarity m \<and> description_similarity m \<le> 1
            \<and> 0 \<le> keyword_overlap m \<and> keyword_overlap m \<le> 1
            \<and> 0 \<le> match_score m \<and> match_score m \<le> 1))
         \<and> (matches r \<noteq> [] \<longrightarrow> veracity_score r = match_score (matches r ! 0) * trust)
         \<and> 0 \<le> veracity_score r \<and> veracity_score r \<le> 1"
proof -
  have "\<forall>a\<in>set articles. \<exists>m. evaluate_article nl input_text a = Inr m"
    using verify_veracity_Inr[OF assms(1)] by blast
  then have e: "\<forall>a\<in>set articles. \<exists>m. evaluate_article nl input_text a = Inr m \<and> well_scored m"
    using evaluate_article_well_scored by blast
  show ?thesis
    unfolding well_scored_def[symmetric]
    using e verify_veracity_score_range[OF assms] by blast
qed

theorem verify_veracity_bounds_witness:
  "verify_veracity sample_nltk sample_sources ''Vaccinurile sunt sigure!''
     [mk_article ''vaccinurile sunt sigure'' ''sigure''] =
     Inr \<lparr>veracity_score = 999 / 1450, confidence = 1 / 5,
          matches = [\<lparr>article = mk_article ''vaccinurile sunt sigure'' ''sigure'',
                      match_score = 111 / 145, title_similarity = 1,
                      description_similarity = 12 / 29, keyword_overlap = 1\<rparr>],
          verdict = ''likely_true''\<rparr>
   \<and> get_source_trust_level sample_sources ''veridica'' = Inr (9 / 10)
   \<and> (0 :: real) \<le> 9 / 10 \<and> (9 / 10 :: real) \<le> 1
   \<and> (0 :: real) \<le> 999 / 1450 \<and> (999 / 1450 :: real) \<le> 1"
proof -
  let ?r = "\<lparr>veracity_score = 999 / 1450, confidence = 1 / 5,
          matches = [\<lparr>article = mk_article ''vaccinurile sunt sigure'' ''sigure'',
                      match_score = 111 / 145, title_similarity = 1,
                      description_similarity = 12 / 29, keyword_overlap = 1\<rparr>],
          verdict = ''likely_true''\<rparr>"
  have h1: "verify_veracity sample_nltk sample_sources ''Vaccinurile sunt sigure!''
     [mk_article ''vaccinurile sunt sigure'' ''sigure''] = Inr ?r"
    by code_simp
  have h2: "get_source_trust_level sample_sources ''veridica'' = Inr (9 / 10)"
    by (simp add: get_source_trust_level_def load_trusted_sources_def json_load_def
        sample_sources_def)
  have h3: "(0 :: real) \<le> 9 / 10" and h4: "(9 / 10 :: real) \<le> 1" by simp_all
  show ?thesis
    using h1 h2 verify_veracity_bounds[OF h1 h2 h3 h4] by simp
qed

text \<open>
  C7: an article whose title and description are both empty is skipped by
  \<open>find_similar_articles\<close>. The code tests the text \<open>title + " " + description\<close>, which
  holds the blank and is never empty, so the article is not skipped: its text is
  preprocessed and compared, an error of the comparison is raised, and the article is
  listed when its similarity exceeds the threshold.
\<close>

theorem find_similar_articles_empty_article:
  "find_similar_articles self input_text [a\<lparr>title := [], description := []\<rparr>] bad threshold =
     (case tfidf_cosine self (analyzer_preprocess_text self input_text)
             (analyzer_preprocess_text self '' '') of
        Inl e \<Rightarrow> Inl e
      | Inr sim \<Rightarrow>
          Inr (if sim > threshold
               then [\<lparr>sa_title = [], sa_link = link a, sa_description = [],
                      similarity = sim, is_bad = bad\<rparr>]
               else []))"
  by (simp add: find_similar_articles_def analyzer_calculate_similarity_def Let_def
      split: sum.splits)


end
